theory Spec2Isabelle
  imports Main "HOL-Library.Sublist" "HOL-Library.AList"
begin

section \<open>Text and character classes\<close>

text \<open>
  The source works on Python \<^verbatim>\<open>str\<close> values. A text is modelled as a HOL \<open>string\<close>.
  The classes used by the three regular expressions of \<^verbatim>\<open>process_xhtml_files\<close>
  (\<^verbatim>\<open>\d\<close>, \<^verbatim>\<open>\s\<close>, \<^verbatim>\<open>\w\<close>, \<^verbatim>\<open>[a-z]\<close>, \<^verbatim>\<open>[A-Z]\<close>, \<^verbatim>\<open>[a-zA-Z']\<close>) and by
  \<^verbatim>\<open>str.strip\<close>, \<^verbatim>\<open>str.split\<close> and \<^verbatim>\<open>str.lower\<close> are written out for the ASCII
  code points; a character outside ASCII belongs to none of them and is left alone by
  \<open>lower\<close>. Python's whitespace (\<^verbatim>\<open>str.isspace\<close>, also used by \<^verbatim>\<open>\s\<close>) on ASCII is
  TAB, LF, VT, FF, CR, the separators 0x1C..0x1F and the space.
\<close>

definition is_digit :: "char \<Rightarrow> bool" where
  "is_digit c = (c \<in> set ''0123456789'')"

definition is_lower :: "char \<Rightarrow> bool" where
  "is_lower c = (c \<in> set ''abcdefghijklmnopqrstuvwxyz'')"

definition is_upper :: "char \<Rightarrow> bool" where
  "is_upper c = (c \<in> set ''ABCDEFGHIJKLMNOPQRSTUVWXYZ'')"

definition is_space :: "char \<Rightarrow> bool" where
  "is_space c = (c \<in> set [CHR 0x09, CHR 0x0A, CHR 0x0B, CHR 0x0C, CHR 0x0D,
                          CHR 0x1C, CHR 0x1D, CHR 0x1E, CHR 0x1F, CHR '' ''])"

definition is_word :: "char \<Rightarrow> bool" where
  \<comment> \<open>\<^verbatim>\<open>\w\<close>\<close>
  "is_word c = (is_lower c \<or> is_upper c \<or> is_digit c \<or> c = CHR ''_'')"

definition is_author_char :: "char \<Rightarrow> bool" where
  \<comment> \<open>\<^verbatim>\<open>[a-zA-Z']\<close>\<close>
  "is_author_char c = (is_lower c \<or> is_upper c \<or> c = CHR 0x27)"

definition lower_char :: "char \<Rightarrow> char" where
  "lower_char c =
     (case map_of (zip ''ABCDEFGHIJKLMNOPQRSTUVWXYZ'' ''abcdefghijklmnopqrstuvwxyz'') c of
        Some l \<Rightarrow> l
      | None \<Rightarrow> c)"

definition lower :: "string \<Rightarrow> string" where
  \<comment> \<open>\<^verbatim>\<open>str.lower()\<close>\<close>
  "lower s = map lower_char s"

definition strip :: "string \<Rightarrow> string" where
  \<comment> \<open>\<^verbatim>\<open>str.strip()\<close>: leading and trailing whitespace removed\<close>
  "strip s = rev (dropWhile is_space (rev (dropWhile is_space s)))"

definition remove_ws :: "string \<Rightarrow> string" where
  \<comment> \<open>\<^verbatim>\<open>re.sub(r'\s', '', year)\<close>\<close>
  "remove_ws s = filter (\<lambda>c. \<not> is_space c) s"

definition before_comma :: "string \<Rightarrow> string" where
  \<comment> \<open>\<^verbatim>\<open>s.split(',')[0]\<close>: the text before the first comma, all of it when there is none\<close>
  "before_comma s = takeWhile (\<lambda>c. c \<noteq> CHR '','') s"

fun split_acc :: "string \<Rightarrow> string \<Rightarrow> string list" where
  "split_acc cur [] = (if cur = [] then [] else [rev cur])"
| "split_acc cur (c # cs) =
     (if is_space c then (if cur = [] then split_acc [] cs else rev cur # split_acc [] cs)
      else split_acc (c # cur) cs)"

definition split_ws :: "string \<Rightarrow> string list" where
  \<comment> \<open>\<^verbatim>\<open>str.split()\<close> without argument: the maximal runs of non-whitespace\<close>
  "split_ws s = split_acc [] s"

datatype py_error = IndexError

definition first_token :: "string \<Rightarrow> py_error + string" where
  \<comment> \<open>\<^verbatim>\<open>s.split()[0]\<close>, which raises IndexError when \<open>s\<close> has no token\<close>
  "first_token s = (case split_ws s of [] \<Rightarrow> Inl IndexError | t # _ \<Rightarrow> Inr t)"

section \<open>Word boundaries and the year group\<close>

text \<open>
  \<^verbatim>\<open>\b\<close> holds between two positions when exactly one of the neighbouring characters
  is a word character; the outside of the text counts as a non-word character. The
  neighbours are passed as options (\<open>None\<close> at either end of the text).
\<close>

definition is_word_opt :: "char option \<Rightarrow> bool" where
  "is_word_opt c = (case c of None \<Rightarrow> False | Some x \<Rightarrow> is_word x)"

definition boundary :: "char option \<Rightarrow> char option \<Rightarrow> bool" where
  "boundary prev nxt = (is_word_opt prev \<noteq> is_word_opt nxt)"

definition head_opt :: "string \<Rightarrow> char option" where
  "head_opt s = (case s of [] \<Rightarrow> None | c # _ \<Rightarrow> Some c)"

text \<open>
  Both citation patterns end in \<^verbatim>\<open>(\d{4}\s*[a-z]?)\b\<close>. \<open>year_candidates s\<close> lists the
  texts that \<^verbatim>\<open>\d{4}\s*[a-z]?\<close> can match at the head of \<open>s\<close>, in the order in which
  Python's backtracking matcher tries them: both quantifiers are greedy, so the longest
  whitespace run comes first and is given back one character at a time, and for each
  run the optional letter is tried before its absence. The match is the first
  candidate after which \<^verbatim>\<open>\b\<close> holds.
\<close>

definition year_candidates :: "string \<Rightarrow> string list" where
  "year_candidates s =
     (if 4 \<le> length s \<and> list_all is_digit (take 4 s) then
        concat (map (\<lambda>w.
            (if (case drop (4 + w) s of [] \<Rightarrow> False | l # _ \<Rightarrow> is_lower l)
             then [take (4 + w + 1) s] else [])
            @ [take (4 + w) s])
          (rev [0..<Suc (length (takeWhile is_space (drop 4 s)))]))
      else [])"

definition year_group :: "string \<Rightarrow> string option" where
  "year_group s =
     find (\<lambda>y. boundary (Some (last y)) (head_opt (drop (length y) s))) (year_candidates s)"

section \<open>Bibliography Indexer\<close>

text \<open>
  \<^verbatim>\<open>citation_pattern = re.compile(r'^(.*?)\b(\d{4}\s*[a-z]?)\b')\<close>, used with \<^verbatim>\<open>search\<close>.
  Without the MULTILINE flag \<^verbatim>\<open>^\<close> holds at position 0 only, so the match starts there.
  The lazy \<^verbatim>\<open>(.*?)\<close> is extended one character at a time, never over a line feed;
  \<open>bib_scan acc rest\<close> has consumed \<open>rev acc\<close> into group 1 and tries the rest of the
  pattern at \<open>rest\<close>. The result is the pair (group 1, group 2).
\<close>

fun bib_scan :: "string \<Rightarrow> string \<Rightarrow> (string \<times> string) option" where
  "bib_scan acc [] = None"
| "bib_scan acc (c # cs) =
     (case (if boundary (head_opt acc) (Some c) then year_group (c # cs) else None) of
        Some year \<Rightarrow> Some (rev acc, year)
      | None \<Rightarrow> if c = CHR 0x0A then None else bib_scan (c # acc) cs)"

definition citation_pattern_search :: "string \<Rightarrow> (string \<times> string) option" where
  "citation_pattern_search s = bib_scan [] s"

text \<open>
  One pass of the loop over \<^verbatim>\<open>bib_soup.find_all('li', id=True)\<close>. The markup parser is
  a library; a bibliography is given as the list of its identified list items in
  document order, each the pair of \<^verbatim>\<open>item['id']\<close> and \<^verbatim>\<open>item.get_text()\<close>.
  \<open>entry_key\<close> is the normalized key of an item, \<open>None\<close> when the item is skipped
  (no match, empty author part, or the IndexError caught by the loop).
\<close>

definition entry_key :: "string \<Rightarrow> string option" where
  "entry_key raw_text =
     (case citation_pattern_search (strip raw_text) of
        None \<Rightarrow> None
      | Some (author_part, year) \<Rightarrow>
          if strip author_part = [] then None
          else (case first_token (before_comma (strip author_part)) of
                  Inl IndexError \<Rightarrow> None
                | Inr primary_author_surname \<Rightarrow>
                    Some (lower primary_author_surname @ remove_ws year)))"

record bib_entry =
  entry_id :: string
  filename :: string

type_synonym bib_index = "(string \<times> bib_entry list) list"

text \<open>
  \<^verbatim>\<open>bib_data\<close> is a Python dict, which keeps its keys in insertion order: an association
  list with distinct keys. \<open>append_entry\<close> is
  \<^verbatim>\<open>if key not in bib_data: bib_data[key] = []\<close> followed by \<^verbatim>\<open>bib_data[key].append(e)\<close>.
\<close>

fun append_entry :: "string \<Rightarrow> bib_entry \<Rightarrow> bib_index \<Rightarrow> bib_index" where
  "append_entry k e [] = [(k, [e])]"
| "append_entry k e ((k', es) # rest) =
     (if k' = k then (k', es @ [e]) # rest else (k', es) # append_entry k e rest)"

fun index_items :: "string \<Rightarrow> (string \<times> string) list \<Rightarrow> bib_index \<Rightarrow> bib_index" where
  "index_items bib_filename [] bib_data = bib_data"
| "index_items bib_filename ((bib_id, raw_text) # items) bib_data =
     (case entry_key raw_text of
        None \<Rightarrow> index_items bib_filename items bib_data
      | Some normalized_key \<Rightarrow>
          index_items bib_filename items
            (append_entry normalized_key \<lparr>entry_id = bib_id, filename = bib_filename\<rparr> bib_data))"

definition build_index :: "string \<Rightarrow> (string \<times> string) list \<Rightarrow> bib_index" where
  "build_index bib_filename items = index_items bib_filename items []"

section \<open>Entity Guard\<close>

text \<open>
  \<^verbatim>\<open>entity_pattern = re.compile(r'(&#?\w+;)')\<close>. \<open>entity_at s\<close> is the length of the match
  at the head of \<open>s\<close>, if there is one. No backtracking changes the outcome: \<^verbatim>\<open>\w+\<close> must
  take the whole run of word characters because the next character has to be \<^verbatim>\<open>;\<close>, and
  a \<^verbatim>\<open>#\<close> that is present must be taken by \<^verbatim>\<open>#?\<close> because it is no word character.
\<close>

definition entity_at :: "string \<Rightarrow> nat option" where
  "entity_at s =
     (case s of
        [] \<Rightarrow> None
      | c # cs \<Rightarrow>
          if c \<noteq> CHR ''&'' then None
          else
            let hash = (if head_opt cs = Some (CHR ''#'') then 1 else 0);
                run = takeWhile is_word (drop hash cs)
            in if run \<noteq> [] \<and> head_opt (drop (hash + length run) cs) = Some (CHR '';'')
               then Some (1 + hash + length run + 1)
               else None)"

definition placeholder :: "string \<Rightarrow> string" where
  \<comment> \<open>\<^verbatim>\<open>f"__ENTITY_{uuid.uuid4().hex}__"\<close>\<close>
  "placeholder hex = ''__ENTITY_'' @ hex @ ''__''"

type_synonym entity_map = "(string \<times> string) list"

text \<open>
  \<^verbatim>\<open>entity_pattern.sub(protect_entity, chapter_content)\<close>: the text is scanned from left to
  right, every match is replaced by what \<^verbatim>\<open>protect_entity\<close> returns and the scan goes on
  behind the match. \<^verbatim>\<open>uuid.uuid4()\<close> is the environment's: \<open>uuid n\<close> is the hex text of
  the \<open>n\<close>-th identifier drawn in the run, and the number of identifiers drawn so far
  is threaded through. \<^verbatim>\<open>entity_map\<close> is a dict in insertion order; an assignment to a
  key that is present overwrites its value in place (\<open>AList.update\<close>). A match has at
  least three characters, so \<open>drop (len - 1) cs\<close> is the text behind it.
\<close>

fun protect_from :: "(nat \<Rightarrow> string) \<Rightarrow> nat \<Rightarrow> entity_map \<Rightarrow> string \<Rightarrow> string \<times> entity_map \<times> nat" where
  "protect_from uuid n entity_map [] = ([], entity_map, n)"
| "protect_from uuid n entity_map (c # cs) =
     (case entity_at (c # cs) of
        Some len \<Rightarrow>
          (case protect_from uuid (Suc n)
                  (AList.update (placeholder (uuid n)) (take len (c # cs)) entity_map)
                  (drop (len - 1) cs) of
             (out, m, n') \<Rightarrow> (placeholder (uuid n) @ out, m, n'))
      | None \<Rightarrow>
          (case protect_from uuid n entity_map cs of
             (out, m, n') \<Rightarrow> (c # out, m, n')))"

definition protect :: "(nat \<Rightarrow> string) \<Rightarrow> string \<Rightarrow> string \<times> entity_map" where
  "protect uuid chapter_content =
     (case protect_from uuid 0 [] chapter_content of (out, m, n) \<Rightarrow> (out, m))"

text \<open>
  \<^verbatim>\<open>str.replace(old, new)\<close>: the occurrences of \<open>old\<close> are found from left to right
  without overlap. For an empty \<open>old\<close> Python inserts \<open>new\<close> before every character and
  at the end.
\<close>

fun str_replace :: "string \<Rightarrow> string \<Rightarrow> string \<Rightarrow> string" where
  "str_replace old new [] = (if old = [] then new else [])"
| "str_replace old new (c # cs) =
     (if old = [] then new @ c # str_replace old new cs
      else if prefix old (c # cs) then new @ str_replace old new (drop (length old - 1) cs)
      else c # str_replace old new cs)"

definition restore :: "entity_map \<Rightarrow> string \<Rightarrow> string" where
  \<comment> \<open>\<^verbatim>\<open>for placeholder, entity in entity_map.items(): final_content = final_content.replace(placeholder, entity)\<close>\<close>
  "restore entity_map final_html = fold (\<lambda>(ph, entity) s. str_replace ph entity s) entity_map final_html"

section \<open>Citation Scanner\<close>

text \<open>
  \<^verbatim>\<open>search_pattern = re.compile(r'\b([A-Z][a-zA-Z\']+)\s+(\d{4}\s*[a-z]?)\b')\<close>.
  \<open>search_pattern_at prev s\<close> tries the pattern at the head of \<open>s\<close>, \<open>prev\<close> being the
  character before it, and returns group 1, group 2 and the length of the whole match.
  \<^verbatim>\<open>[a-zA-Z']+\<close> must take its whole run (whitespace has to follow) and so must \<^verbatim>\<open>\s+\<close>
  (a digit has to follow); the only backtracking is inside the year group.
\<close>

definition search_pattern_at :: "char option \<Rightarrow> string \<Rightarrow> (string \<times> string \<times> nat) option" where
  "search_pattern_at prev s =
     (case s of
        [] \<Rightarrow> None
      | c # cs \<Rightarrow>
          if boundary prev (Some c) \<and> is_upper c then
            let run = takeWhile is_author_char cs;
                ws = takeWhile is_space (drop (length run) cs)
            in if run = [] \<or> ws = [] then None
               else (case year_group (drop (length run + length ws) cs) of
                       None \<Rightarrow> None
                     | Some y \<Rightarrow> Some (c # run, y, 1 + length run + length ws + length y))
          else None)"

record cite_match =
  m_start :: nat
  m_end :: nat
  author_in_text :: string
  year_in_text :: string

text \<open>
  \<^verbatim>\<open>search_pattern.finditer(original_text)\<close>: the matches from left to right, each search
  starting where the last match ended. A match has at least seven characters, so
  \<open>drop (n - 1) cs\<close> is the text behind it, and the character before that text is the
  last one of the year group.
\<close>

fun finditer_from :: "char option \<Rightarrow> nat \<Rightarrow> string \<Rightarrow> cite_match list" where
  "finditer_from prev pos [] = []"
| "finditer_from prev pos (c # cs) =
     (case search_pattern_at prev (c # cs) of
        Some (a, y, n) \<Rightarrow>
          \<lparr>m_start = pos, m_end = pos + n, author_in_text = a, year_in_text = y\<rparr>
            # finditer_from (Some (last y)) (pos + n) (drop (n - 1) cs)
      | None \<Rightarrow> finditer_from (Some c) (Suc pos) cs)"

definition finditer :: "string \<Rightarrow> cite_match list" where
  "finditer original_text = finditer_from None 0 original_text"

definition lookup_key :: "cite_match \<Rightarrow> string" where
  "lookup_key m = lower (author_in_text m) @ remove_ws (year_in_text m)"

section \<open>Link Rewriter\<close>

text \<open>
  A parsed document is a forest of text nodes and elements (name, attributes,
  children). The fragments that replace a text node are nodes as well: a Python \<^verbatim>\<open>str\<close>
  in \<^verbatim>\<open>new_content\<close> becomes a text node when \<^verbatim>\<open>replace_with\<close> inserts it.
\<close>

datatype node = Text string | Elem string "(string \<times> string) list" "node list"

definition slice :: "string \<Rightarrow> nat \<Rightarrow> nat \<Rightarrow> string" where
  \<comment> \<open>\<^verbatim>\<open>s[i:j]\<close> for \<open>0 \<le> i\<close>, \<open>0 \<le> j\<close>\<close>
  "slice s i j = take (j - i) (drop i s)"

definition new_a_tag :: "bib_entry \<Rightarrow> string \<Rightarrow> node" where
  "new_a_tag entry year =
     Elem ''a'' [(''class'', ''xref''), (''href'', filename entry @ ''#'' @ entry_id entry)]
       [Text year]"

text \<open>
  The body of \<^verbatim>\<open>for match in matches\<close> behind the copy of the preceding text: what is
  appended to \<^verbatim>\<open>new_content\<close> for one match. \<^verbatim>\<open>bib_data[lookup_key][0]\<close> raises
  IndexError on an empty sequence.
\<close>

definition link_or_keep :: "bib_index \<Rightarrow> string \<Rightarrow> cite_match \<Rightarrow> py_error + node list" where
  "link_or_keep bib_data original_text m =
     (case map_of bib_data (lookup_key m) of
        Some entries \<Rightarrow>
          (case entries of
             [] \<Rightarrow> Inl IndexError
           | entry # _ \<Rightarrow>
               Inr [Text (author_in_text m @ '' ''), new_a_tag entry (year_in_text m)])
      | None \<Rightarrow> Inr [Text (slice original_text (m_start m) (m_end m))])"

fun rewrite_matches :: "bib_index \<Rightarrow> string \<Rightarrow> nat \<Rightarrow> cite_match list \<Rightarrow> py_error + node list" where
  "rewrite_matches bib_data original_text last_index [] =
     Inr (if last_index < length original_text then [Text (drop last_index original_text)] else [])"
| "rewrite_matches bib_data original_text last_index (m # ms) =
     (case link_or_keep bib_data original_text m of
        Inl e \<Rightarrow> Inl e
      | Inr emitted \<Rightarrow>
          (case rewrite_matches bib_data original_text (m_end m) ms of
             Inl e \<Rightarrow> Inl e
           | Inr rest \<Rightarrow>
               Inr ((if last_index < m_start m
                     then [Text (slice original_text last_index (m_start m))] else [])
                    @ emitted @ rest)))"

definition rewrite_text :: "bib_index \<Rightarrow> string \<Rightarrow> py_error + node list" where
  \<comment> \<open>what a scanned text node is replaced with; a node without match stays as it is\<close>
  "rewrite_text bib_data original_text =
     (if finditer original_text = [] then Inr [Text original_text]
      else rewrite_matches bib_data original_text 0 (finditer original_text))"

text \<open>
  The loop over \<^verbatim>\<open>chapter_soup.body.find_all(string=True)\<close>: every text node below the
  body, in document order; a node whose parent is named \<^verbatim>\<open>a\<close>, \<^verbatim>\<open>script\<close> or \<^verbatim>\<open>style\<close>
  is passed over. \<open>rewrite_node bib_data parent_name n\<close> is the list of nodes that stands
  in the place of \<open>n\<close> afterwards. An exception leaves the loop.
\<close>

fun collect :: "(py_error + 'a list) list \<Rightarrow> py_error + 'a list" where
  "collect [] = Inr []"
| "collect (r # rs) =
     (case r of
        Inl e \<Rightarrow> Inl e
      | Inr xs \<Rightarrow> (case collect rs of Inl e \<Rightarrow> Inl e | Inr ys \<Rightarrow> Inr (xs @ ys)))"

fun rewrite_node :: "bib_index \<Rightarrow> string \<Rightarrow> node \<Rightarrow> py_error + node list" where
  "rewrite_node bib_data parent_name (Text s) =
     (if parent_name \<in> set [''a'', ''script'', ''style''] then Inr [Text s]
      else rewrite_text bib_data s)"
| "rewrite_node bib_data parent_name (Elem name attrs children) =
     (case collect (map (rewrite_node bib_data name) children) of
        Inl e \<Rightarrow> Inl e
      | Inr children' \<Rightarrow> Inr [Elem name attrs children'])"

text \<open>
  \<^verbatim>\<open>chapter_soup.body\<close> is the first element named \<^verbatim>\<open>body\<close> in document order.
  \<open>rewrite_body\<close> runs the loop on that element inside the document.
\<close>

fun has_body :: "node \<Rightarrow> bool" where
  "has_body (Text s) = False"
| "has_body (Elem name attrs children) = (name = ''body'' \<or> list_ex has_body children)"

fun rewrite_body_node :: "bib_index \<Rightarrow> node \<Rightarrow> py_error + node"
  and rewrite_body :: "bib_index \<Rightarrow> node list \<Rightarrow> py_error + node list" where
  "rewrite_body_node bib_data (Text s) = Inr (Text s)"
| "rewrite_body_node bib_data (Elem name attrs children) =
     (if name = ''body'' then
        (case collect (map (rewrite_node bib_data name) children) of
           Inl e \<Rightarrow> Inl e
         | Inr children' \<Rightarrow> Inr (Elem name attrs children'))
      else
        (case rewrite_body bib_data children of
           Inl e \<Rightarrow> Inl e
         | Inr children' \<Rightarrow> Inr (Elem name attrs children')))"
| "rewrite_body bib_data [] = Inr []"
| "rewrite_body bib_data (n # ns) =
     (if has_body n then
        (case rewrite_body_node bib_data n of Inl e \<Rightarrow> Inl e | Inr n' \<Rightarrow> Inr (n' # ns))
      else
        (case rewrite_body bib_data ns of Inl e \<Rightarrow> Inl e | Inr ns' \<Rightarrow> Inr (n # ns')))"

section \<open>Cross-Reference Engine\<close>

text \<open>
  \<^verbatim>\<open>process_xhtml_files\<close> returns \<^verbatim>\<open>None\<close> at three places, told apart here by the
  names the specification gives them: no bibliography entry was indexed, the chapter
  has no body, an exception was caught. On success the value is the text written to
  the output file. Reading and writing files and the choice of the output name are
  left out; \<^verbatim>\<open>links_created\<close> is only printed. The markup library is a parameter:
  \<open>parse\<close> is \<^verbatim>\<open>BeautifulSoup(text, 'xml')\<close>, \<open>serialize\<close> is \<^verbatim>\<open>str(chapter_soup)\<close>.
\<close>

datatype failure = EmptyBibliographyError | NoBodyError | UnexpectedFailure

definition process_xhtml_files ::
  "(string \<Rightarrow> node list) \<Rightarrow> (node list \<Rightarrow> string) \<Rightarrow> (nat \<Rightarrow> string)
     \<Rightarrow> string \<Rightarrow> (string \<times> string) list \<Rightarrow> string \<Rightarrow> failure + string" where
  "process_xhtml_files parse serialize uuid bib_filename bib_items chapter_content =
     (let bib_data = build_index bib_filename bib_items in
      if bib_data = [] then Inl EmptyBibliographyError
      else
        (case protect uuid chapter_content of
           (protected_content, entity_map) \<Rightarrow>
             let chapter_soup = parse protected_content in
             if \<not> list_ex has_body chapter_soup then Inl NoBodyError
             else
               (case rewrite_body bib_data chapter_soup of
                  Inl e \<Rightarrow> Inl UnexpectedFailure
                | Inr soup' \<Rightarrow> Inr (restore entity_map (serialize soup')))))"

section \<open>Notions used to state the properties\<close>

text \<open>
  The entries of a bibliography that normalize to the key \<open>k\<close>, in document order.
\<close>

definition entries_with_key :: "string \<Rightarrow> string \<Rightarrow> (string \<times> string) list \<Rightarrow> bib_entry list" where
  "entries_with_key bib_filename k items =
     map (\<lambda>it. \<lparr>entry_id = fst it, filename = bib_filename\<rparr>)
       (filter (\<lambda>it. entry_key (snd it) = Some k) items)"



text \<open>
  A source of identifiers for the examples, in the format of \<^verbatim>\<open>uuid.uuid4().hex\<close>
  (32 lower-case hexadecimal digits), and a markup library for the examples: the parser
  knows documents of one shape only, a body holding one text node, and the serializer
  writes elements as tags.
\<close>

definition is_hex32 :: "string \<Rightarrow> bool" where
  "is_hex32 h = (length h = 32 \<and> list_all (\<lambda>c. c \<in> set ''0123456789abcdef'') h)"

definition sample_uuid :: "nat \<Rightarrow> string" where
  "sample_uuid n = ''0000000000004000800000000000000'' @ [''0123456789abcdef'' ! (n mod 16)]"

definition sample_parse :: "string \<Rightarrow> node list" where
  "sample_parse s = [Elem ''html'' [] [Elem ''body'' [] [Text s]]]"

fun render :: "node \<Rightarrow> string" where
  "render (Text s) = s"
| "render (Elem name attrs children) =
     ''<'' @ name @ concat (map (\<lambda>(k, v). '' '' @ k @ ''='' @ [CHR 0x22] @ v @ [CHR 0x22]) attrs) @ ''>''
     @ concat (map render children) @ ''</'' @ name @ ''>''"

definition sample_serialize :: "node list \<Rightarrow> string" where
  "sample_serialize ns = concat (map render ns)"

text \<open>No key of the index stands for an empty sequence of entries.\<close>

definition entries_present :: "bib_index \<Rightarrow> bool" where
  "entries_present bib_data = list_all (\<lambda>k. map_of bib_data k \<noteq> Some []) (map fst bib_data)"

text \<open>The core of a placeholder: what stands between its leading and trailing underscores.\<close>

definition core :: "string \<Rightarrow> string" where
  "core h = ''ENTITY_'' @ h"

text \<open>
  The two results of the scan taken apart: the protected text, and the pairs of
  placeholder and entity in the order in which they are recorded.
\<close>

fun protected_text :: "(nat \<Rightarrow> string) \<Rightarrow> nat \<Rightarrow> string \<Rightarrow> string" where
  "protected_text uuid n [] = []"
| "protected_text uuid n (c # cs) =
     (case entity_at (c # cs) of
        Some len \<Rightarrow> placeholder (uuid n) @ protected_text uuid (Suc n) (drop (len - 1) cs)
      | None \<Rightarrow> c # protected_text uuid n cs)"

fun entity_pairs :: "(nat \<Rightarrow> string) \<Rightarrow> nat \<Rightarrow> string \<Rightarrow> (string \<times> string) list" where
  "entity_pairs uuid n [] = []"
| "entity_pairs uuid n (c # cs) =
     (case entity_at (c # cs) of
        Some len \<Rightarrow>
          (placeholder (uuid n), take len (c # cs)) # entity_pairs uuid (Suc n) (drop (len - 1) cs)
      | None \<Rightarrow> entity_pairs uuid n cs)"

section \<open>The index and the links\<close>

lemma map_of_append_entry:
  "map_of (append_entry k e idx) k' =
     (if k' = k then Some ((case map_of idx k of None \<Rightarrow> [] | Some es \<Rightarrow> es) @ [e])
      else map_of idx k')"
  by (induction idx) (auto split: option.splits)

lemma append_entry_not_Nil: "append_entry k e idx \<noteq> []"
  by (cases idx) (auto split: if_splits)

lemma map_of_index_items:
  "map_of (index_items fn items acc) k =
     (if entries_with_key fn k items = [] then map_of acc k
      else Some ((case map_of acc k of None \<Rightarrow> [] | Some es \<Rightarrow> es) @ entries_with_key fn k items))"
proof (induction items arbitrary: acc)
  case Nil
  then show ?case by (simp add: entries_with_key_def)
next
  case (Cons it items)
  obtain bid raw where it: "it = (bid, raw)" by (cases it)
  show ?case
  proof (cases "entry_key raw")
    case None
    then show ?thesis using Cons.IH [of acc] by (simp add: it entries_with_key_def)
  next
    case (Some k')
    then show ?thesis
      using Cons.IH [of "append_entry k' \<lparr>entry_id = bid, filename = fn\<rparr> acc"]
      by (auto simp: it entries_with_key_def map_of_append_entry split: option.splits)
  qed
qed

lemma map_of_build_index:
  "map_of (build_index fn items) k =
     (if entries_with_key fn k items = [] then None else Some (entries_with_key fn k items))"
  by (simp add: build_index_def map_of_index_items)

lemma index_items_Nil_iff:
  "index_items fn items acc = [] \<longleftrightarrow> acc = [] \<and> (\<forall>it \<in> set items. entry_key (snd it) = None)"
proof (induction items arbitrary: acc)
  case Nil
  then show ?case by simp
next
  case (Cons it items)
  obtain bid raw where it: "it = (bid, raw)" by (cases it)
  show ?case
    by (cases "entry_key raw") (auto simp: it Cons.IH append_entry_not_Nil)
qed

lemma entries_with_key_first:
  "entries_with_key fn k items = e # es \<Longrightarrow>
     \<exists>bid raw. find (\<lambda>it. entry_key (snd it) = Some k) items = Some (bid, raw)
              \<and> e = \<lparr>entry_id = bid, filename = fn\<rparr>"
proof (induction items)
  case Nil
  then show ?case by (simp add: entries_with_key_def)
next
  case (Cons it items)
  show ?case
  proof (cases "entry_key (snd it) = Some k")
    case True
    with Cons.prems show ?thesis by (cases it) (auto simp: entries_with_key_def)
  next
    case False
    with Cons show ?thesis by (simp add: entries_with_key_def)
  qed
qed

lemma link_or_keep_elem:
  assumes "link_or_keep bib_data original_text m = Inr frags"
      and "Elem name attrs kids \<in> set frags"
  shows "\<exists>entry es. map_of bib_data (lookup_key m) = Some (entry # es)
            \<and> Elem name attrs kids = new_a_tag entry (year_in_text m)"
  using assms by (auto simp: link_or_keep_def split: option.splits list.splits)

lemma rewrite_matches_elem:
  assumes "rewrite_matches bib_data original_text last_index ms = Inr frags"
      and "Elem name attrs kids \<in> set frags"
  shows "\<exists>m \<in> set ms. \<exists>entry es. map_of bib_data (lookup_key m) = Some (entry # es)
            \<and> Elem name attrs kids = new_a_tag entry (year_in_text m)"
  using assms
proof (induction ms arbitrary: last_index frags)
  case Nil
  then show ?case by (auto split: if_splits)
next
  case (Cons m ms)
  from Cons.prems(1) obtain emitted rest where
    e: "link_or_keep bib_data original_text m = Inr emitted" and
    r: "rewrite_matches bib_data original_text (m_end m) ms = Inr rest" and
    f: "frags = (if last_index < m_start m
                 then [Text (slice original_text last_index (m_start m))] else [])
                 @ emitted @ rest"
    by (auto split: sum.splits)
  from Cons.prems(2) f consider
    "Elem name attrs kids \<in> set emitted" | "Elem name attrs kids \<in> set rest"
    by (auto split: if_splits)
  then show ?case
  proof cases
    case 1
    from link_or_keep_elem [OF e 1] show ?thesis by auto
  next
    case 2
    from Cons.IH [OF r 2] show ?thesis by auto
  qed
qed

lemma rewrite_text_elem:
  assumes "rewrite_text bib_data original_text = Inr frags"
      and "Elem name attrs kids \<in> set frags"
  shows "\<exists>m \<in> set (finditer original_text). \<exists>entry es.
            map_of bib_data (lookup_key m) = Some (entry # es)
            \<and> Elem name attrs kids = new_a_tag entry (year_in_text m)"
  using assms
    rewrite_matches_elem [of bib_data original_text 0 "finditer original_text" frags name attrs kids]
  by (auto simp: rewrite_text_def split: if_splits)

section \<open>Key normalization\<close>

text \<open>
  C1. The bibliography entry text "Smith, J. (1999)." and the in-text citation
  "Smith 1999" both normalize to the key smith1999, and the citation is rewritten to
  the author text followed by a hyperlink to that entry, whatever the entry's
  identifier and the bibliography's file name are.
\<close>

theorem key_normalization_symmetry:
  "entry_key ''Smith, J. (1999).'' = Some ''smith1999''
   \<and> map lookup_key (finditer ''Smith 1999'') = [''smith1999'']
   \<and> rewrite_text (build_index fn [(bid, ''Smith, J. (1999).'')]) ''Smith 1999''
       = Inr [Text ''Smith '',
              Elem ''a'' [(''class'', ''xref''), (''href'', fn @ ''#'' @ bid)] [Text ''1999'']]"
proof -
  have k: "entry_key ''Smith, J. (1999).'' = Some ''smith1999''"
    by code_simp
  have f: "finditer ''Smith 1999''
             = [\<lparr>m_start = 0, m_end = 10, author_in_text = ''Smith'', year_in_text = ''1999''\<rparr>]"
    by code_simp
  have l: "lookup_key \<lparr>m_start = 0, m_end = 10, author_in_text = ''Smith'', year_in_text = ''1999''\<rparr>
             = ''smith1999''"
    by code_simp
  show ?thesis
    by (simp add: k f l build_index_def rewrite_text_def link_or_keep_def new_a_tag_def)
qed

section \<open>Tie-break\<close>

text \<open>
  C2. Every hyperlink that the rewriter produces in a text node targets the entry
  that comes first in the bibliography document among the entries normalizing to the
  citation's key: its target is the file name, \<open>#\<close>, and the identifier of the first
  list item whose key is the lookup key of the match. The result is a function of the
  inputs, so it is the same on every run, and nothing but the key takes part in the
  choice.
\<close>

theorem tie_break_first_entry:
  assumes "rewrite_text (build_index fn items) original_text = Inr frags"
      and "Elem name attrs kids \<in> set frags"
  shows "\<exists>m \<in> set (finditer original_text). \<exists>bid raw.
           find (\<lambda>it. entry_key (snd it) = Some (lookup_key m)) items = Some (bid, raw)
         \<and> Elem name attrs kids
             = Elem ''a'' [(''class'', ''xref''), (''href'', fn @ ''#'' @ bid)]
                 [Text (year_in_text m)]"
proof -
  from rewrite_text_elem [OF assms] obtain m entry es where
    m: "m \<in> set (finditer original_text)" and
    l: "map_of (build_index fn items) (lookup_key m) = Some (entry # es)" and
    a: "Elem name attrs kids = new_a_tag entry (year_in_text m)"
    by blast
  from l have "entries_with_key fn (lookup_key m) items = entry # es"
    by (simp add: map_of_build_index split: if_splits)
  from entries_with_key_first [OF this] obtain bid raw where
    "find (\<lambda>it. entry_key (snd it) = Some (lookup_key m)) items = Some (bid, raw)"
    "entry = \<lparr>entry_id = bid, filename = fn\<rparr>"
    by blast
  with m a show ?thesis by (auto simp: new_a_tag_def)
qed

theorem tie_break_first_entry_witness:
  "rewrite_text
     (build_index ''bib.xhtml'' [(''b1'', ''Smith, J. (1999).''), (''b2'', ''Smith, K. (1999).'')])
     ''Smith 1999''
     = Inr [Text ''Smith '',
            Elem ''a'' [(''class'', ''xref''), (''href'', ''bib.xhtml#b1'')] [Text ''1999'']]
   \<and> Elem ''a'' [(''class'', ''xref''), (''href'', ''bib.xhtml#b1'')] [Text ''1999'']
       \<in> set [Text ''Smith '',
               Elem ''a'' [(''class'', ''xref''), (''href'', ''bib.xhtml#b1'')] [Text ''1999'']]
   \<and> (\<exists>m \<in> set (finditer ''Smith 1999''). \<exists>bid raw.
         find (\<lambda>it. entry_key (snd it) = Some (lookup_key m))
           [(''b1'', ''Smith, J. (1999).''), (''b2'', ''Smith, K. (1999).'')] = Some (bid, raw)
       \<and> Elem ''a'' [(''class'', ''xref''), (''href'', ''bib.xhtml#b1'')] [Text ''1999'']
           = Elem ''a'' [(''class'', ''xref''), (''href'', ''bib.xhtml'' @ ''#'' @ bid)]
               [Text (year_in_text m)])"
proof -
  have h1: "rewrite_text
     (build_index ''bib.xhtml'' [(''b1'', ''Smith, J. (1999).''), (''b2'', ''Smith, K. (1999).'')])
     ''Smith 1999''
     = Inr [Text ''Smith '',
            Elem ''a'' [(''class'', ''xref''), (''href'', ''bib.xhtml#b1'')] [Text ''1999'']]"
    by code_simp
  have h2: "Elem ''a'' [(''class'', ''xref''), (''href'', ''bib.xhtml#b1'')] [Text ''1999'']
       \<in> set [Text ''Smith '',
               Elem ''a'' [(''class'', ''xref''), (''href'', ''bib.xhtml#b1'')] [Text ''1999'']]"
    by simp
  from tie_break_first_entry [OF h1 h2] h1 h2 show ?thesis
    by blast
qed

section \<open>Failure and success of a run\<close>

lemma collect_all_Inr:
  "(\<And>r. r \<in> set rs \<Longrightarrow> \<exists>xs. r = Inr xs) \<Longrightarrow> \<exists>ys. collect rs = Inr ys"
proof (induction rs)
  case Nil
  then show ?case by simp
next
  case (Cons r rs)
  then obtain xs where "r = Inr xs" by auto
  moreover from Cons obtain ys where "collect rs = Inr ys" by auto
  ultimately show ?case by simp
qed

lemma entries_present_build_index: "entries_present (build_index fn items)"
  by (simp add: entries_present_def list_all_iff map_of_build_index)

lemma link_or_keep_total:
  "entries_present bib_data \<Longrightarrow> \<exists>frags. link_or_keep bib_data original_text m = Inr frags"
proof -
  assume present: "entries_present bib_data"
  have "map_of bib_data (lookup_key m) \<noteq> Some []"
  proof
    assume empty: "map_of bib_data (lookup_key m) = Some []"
    then have "lookup_key m \<in> fst ` set bib_data"
      by (force dest: map_of_SomeD)
    with present empty show False
      by (auto simp: entries_present_def list_all_iff)
  qed
  then show ?thesis
    by (auto simp: link_or_keep_def split: option.splits list.splits)
qed

lemma rewrite_matches_total:
  "entries_present bib_data \<Longrightarrow> \<exists>frags. rewrite_matches bib_data original_text last_index ms = Inr frags"
proof (induction ms arbitrary: last_index)
  case Nil
  then show ?case by simp
next
  case (Cons m ms)
  from link_or_keep_total [OF Cons.prems] obtain e where
    "link_or_keep bib_data original_text m = Inr e" by blast
  moreover from Cons obtain r where
    "rewrite_matches bib_data original_text (m_end m) ms = Inr r" by blast
  ultimately show ?case by simp
qed

lemma rewrite_text_total:
  "entries_present bib_data \<Longrightarrow> \<exists>frags. rewrite_text bib_data original_text = Inr frags"
  using rewrite_matches_total [of bib_data original_text 0 "finditer original_text"]
  by (simp add: rewrite_text_def)

lemma rewrite_node_total:
  "entries_present bib_data \<Longrightarrow> \<exists>ns. rewrite_node bib_data parent_name n = Inr ns"
proof (induction bib_data parent_name n rule: rewrite_node.induct)
  case (1 bib_data parent_name s)
  then show ?case using rewrite_text_total [of bib_data s] by simp
next
  case (2 bib_data parent_name name attrs children)
  have "\<exists>ys. collect (map (rewrite_node bib_data name) children) = Inr ys"
    by (rule collect_all_Inr) (use 2 in auto)
  then show ?case by auto
qed

lemma children_total:
  "entries_present bib_data \<Longrightarrow> \<exists>ys. collect (map (rewrite_node bib_data name) children) = Inr ys"
  by (rule collect_all_Inr) (use rewrite_node_total in auto)

lemma rewrite_body_total:
  "entries_present bib_data \<Longrightarrow> \<exists>n'. rewrite_body_node bib_data n = Inr n'"
  "entries_present bib_data \<Longrightarrow> \<exists>ns'. rewrite_body bib_data ns = Inr ns'"
proof (induction bib_data n and bib_data ns rule: rewrite_body_node_rewrite_body.induct)
  case (1 bib_data s)
  then show ?case by simp
next
  case (2 bib_data name attrs children)
  show ?case
  proof (cases "name = ''body''")
    case True
    with children_total [OF 2(2), of name children] show ?thesis by auto
  next
    case False
    with 2 show ?thesis by auto
  qed
next
  case (3 bib_data)
  then show ?case by simp
next
  case (4 bib_data n ns)
  then show ?case by (cases "has_body n") auto
qed

text \<open>
  C4. When no list item of the bibliography yields a key, the index is empty and the
  run ends at once with the failure of an empty bibliography, whatever the chapter is
  and whatever the markup library and the identifiers are: none of them is looked at,
  and no output text is produced.
\<close>

theorem all_or_nothing_empty_bibliography:
  assumes "\<forall>it \<in> set bib_items. entry_key (snd it) = None"
  shows "build_index bib_filename bib_items = []
       \<and> process_xhtml_files parse serialize uuid bib_filename bib_items chapter_content
           = Inl EmptyBibliographyError"
proof -
  from assms have "build_index bib_filename bib_items = []"
    by (simp add: build_index_def index_items_Nil_iff)
  then show ?thesis by (simp add: process_xhtml_files_def)
qed

theorem all_or_nothing_empty_bibliography_witness:
  "entry_key ''1999. Untitled.'' = None
   \<and> entry_key ''Anonymous, undated.'' = None
   \<and> build_index ''bib.xhtml'' [(''b1'', ''1999. Untitled.''), (''b2'', ''Anonymous, undated.'')] = []
   \<and> process_xhtml_files sample_parse sample_serialize sample_uuid ''bib.xhtml''
        [(''b1'', ''1999. Untitled.''), (''b2'', ''Anonymous, undated.'')] ''Smith 1999 &amp; more''
        = Inl EmptyBibliographyError"
proof -
  have k1: "entry_key ''1999. Untitled.'' = None" by code_simp
  have k2: "entry_key ''Anonymous, undated.'' = None" by code_simp
  have h: "\<forall>it \<in> set [(''b1'', ''1999. Untitled.''), (''b2'', ''Anonymous, undated.'')].
             entry_key (snd it) = None"
    by (simp add: k1 k2)
  from all_or_nothing_empty_bibliography [OF h] k1 k2 show ?thesis by blast
qed

text \<open>
  C8. A bibliography of two list items, one well-formed and one in which the year has
  no author text before it, in either order: the second item is skipped, the index
  holds exactly the key of the first, and the run delivers an output text for every
  chapter that has a body.
\<close>

theorem skip_not_fail:
  assumes "entry_key good = Some k"
      and "citation_pattern_search (strip bad) = Some (author_part, year)"
      and "strip author_part = []"
      and "list_ex has_body (parse (fst (protect uuid chapter_content)))"
  shows "map fst (build_index bib_filename [(i1, good), (i2, bad)]) = [k]
       \<and> map fst (build_index bib_filename [(i2, bad), (i1, good)]) = [k]
       \<and> (\<exists>out. process_xhtml_files parse serialize uuid bib_filename [(i1, good), (i2, bad)]
                   chapter_content = Inr out)
       \<and> (\<exists>out. process_xhtml_files parse serialize uuid bib_filename [(i2, bad), (i1, good)]
                   chapter_content = Inr out)"
proof -
  from assms(2,3) have bad: "entry_key bad = None"
    by (simp add: entry_key_def)
  have i1: "build_index bib_filename [(i1, good), (i2, bad)]
              = [(k, [\<lparr>entry_id = i1, filename = bib_filename\<rparr>])]"
    by (simp add: build_index_def bad assms(1))
  have i2: "build_index bib_filename [(i2, bad), (i1, good)]
              = [(k, [\<lparr>entry_id = i1, filename = bib_filename\<rparr>])]"
    by (simp add: build_index_def bad assms(1))
  have p: "entries_present [(k, [\<lparr>entry_id = i1, filename = bib_filename\<rparr>])]"
    by (simp add: entries_present_def)
  obtain protected_content entity_map where
    pr: "protect uuid chapter_content = (protected_content, entity_map)"
    by (cases "protect uuid chapter_content")
  from rewrite_body_total(2) [OF p, of "parse protected_content"] obtain soup' where
    "rewrite_body [(k, [\<lparr>entry_id = i1, filename = bib_filename\<rparr>])] (parse protected_content)
       = Inr soup'"
    by blast
  with assms(4) pr have
    "process_xhtml_files parse serialize uuid bib_filename [(i1, good), (i2, bad)] chapter_content
       = Inr (restore entity_map (serialize soup'))"
    "process_xhtml_files parse serialize uuid bib_filename [(i2, bad), (i1, good)] chapter_content
       = Inr (restore entity_map (serialize soup'))"
    by (simp_all add: process_xhtml_files_def i1 i2)
  with i1 i2 show ?thesis by simp
qed

theorem skip_not_fail_witness:
  "entry_key ''Smith, J. (1999).'' = Some ''smith1999''
   \<and> citation_pattern_search (strip ''1999. Untitled.'') = Some ('''', ''1999'')
   \<and> strip '''' = []
   \<and> list_ex has_body (sample_parse (fst (protect sample_uuid ''See Smith 1999, &amp; others.'')))
   \<and> map fst (build_index ''bib.xhtml'' [(''b1'', ''Smith, J. (1999).''), (''b2'', ''1999. Untitled.'')])
        = [''smith1999'']
   \<and> process_xhtml_files sample_parse sample_serialize sample_uuid ''bib.xhtml''
        [(''b1'', ''Smith, J. (1999).''), (''b2'', ''1999. Untitled.'')] ''See Smith 1999, &amp; others.''
        = Inr (''<html><body>See Smith <a class='' @ [CHR 0x22] @ ''xref'' @ [CHR 0x22] @ '' href=''
               @ [CHR 0x22] @ ''bib.xhtml#b1'' @ [CHR 0x22] @ ''>1999</a>, &amp; others.</body></html>'')"
proof -
  have h1: "entry_key ''Smith, J. (1999).'' = Some ''smith1999''" by code_simp
  have h2: "citation_pattern_search (strip ''1999. Untitled.'') = Some ('''', ''1999'')" by code_simp
  have h3: "strip '''' = []" by code_simp
  have h4: "list_ex has_body (sample_parse (fst (protect sample_uuid ''See Smith 1999, &amp; others.'')))"
    by (simp add: sample_parse_def)
  have r: "process_xhtml_files sample_parse sample_serialize sample_uuid ''bib.xhtml''
        [(''b1'', ''Smith, J. (1999).''), (''b2'', ''1999. Untitled.'')] ''See Smith 1999, &amp; others.''
        = Inr (''<html><body>See Smith <a class='' @ [CHR 0x22] @ ''xref'' @ [CHR 0x22] @ '' href=''
               @ [CHR 0x22] @ ''bib.xhtml#b1'' @ [CHR 0x22] @ ''>1999</a>, &amp; others.</body></html>'')"
    by code_simp
  from skip_not_fail [where parse = sample_parse and uuid = sample_uuid
      and chapter_content = "''See Smith 1999, &amp; others.''" and bib_filename = "''bib.xhtml''"
      and ?i1.0 = "''b1''" and ?i2.0 = "''b2''" and serialize = sample_serialize, OF h1 h2 h3 h4]
    h1 h2 h3 h4 r
  show ?thesis by simp
qed

section \<open>The year-letter suffix and the visible text of a link\<close>



lemma finditer_Smith_1999_a:
  "finditer ''Smith 1999 a''
     = [\<lparr>m_start = 0, m_end = 12, author_in_text = ''Smith'', year_in_text = ''1999 a''\<rparr>]"
  by code_simp



lemma lookup_key_Smith_1999_a:
  "lookup_key \<lparr>m_start = 0, m_end = 12, author_in_text = ''Smith'', year_in_text = ''1999 a''\<rparr>
     = ''smith1999a''"
  by code_simp



text \<open>
  C10. The visible text of every hyperlink produced in a text node is the year group
  of its match as it stands in the text, while the key that found the entry is built
  from the year with its whitespace removed. For the citation "Smith 1999 a" and an
  entry keyed smith1999a the link shows "1999 a".
\<close>

theorem link_text_is_year_verbatim:
  "(rewrite_text bib_data original_text = Inr frags \<longrightarrow> Elem name attrs kids \<in> set frags
      \<longrightarrow> (\<exists>m \<in> set (finditer original_text).
             kids = [Text (year_in_text m)]
           \<and> map_of bib_data (lower (author_in_text m) @ remove_ws (year_in_text m)) \<noteq> None))
   \<and> map lookup_key (finditer ''Smith 1999 a'') = [''smith1999a'']
   \<and> rewrite_text (build_index fn [(bid, ''Smith, J. (1999a).'')]) ''Smith 1999 a''
        = Inr [Text ''Smith '',
               Elem ''a'' [(''class'', ''xref''), (''href'', fn @ ''#'' @ bid)] [Text ''1999 a'']]"
proof -
  have general: "\<exists>m \<in> set (finditer original_text).
             kids = [Text (year_in_text m)]
           \<and> map_of bib_data (lower (author_in_text m) @ remove_ws (year_in_text m)) \<noteq> None"
    if "rewrite_text bib_data original_text = Inr frags" "Elem name attrs kids \<in> set frags"
    using rewrite_text_elem [OF that] by (fastforce simp: new_a_tag_def lookup_key_def)
  have k: "entry_key ''Smith, J. (1999a).'' = Some ''smith1999a''"
    by code_simp
  have example: "rewrite_text (build_index fn [(bid, ''Smith, J. (1999a).'')]) ''Smith 1999 a''
        = Inr [Text ''Smith '',
               Elem ''a'' [(''class'', ''xref''), (''href'', fn @ ''#'' @ bid)] [Text ''1999 a'']]"
    by (simp add: k finditer_Smith_1999_a lookup_key_Smith_1999_a build_index_def rewrite_text_def
          link_or_keep_def new_a_tag_def)
  from general example show ?thesis
    by (simp add: finditer_Smith_1999_a lookup_key_Smith_1999_a)
qed

theorem link_text_is_year_verbatim_witness:
  "rewrite_text (build_index ''bib.xhtml'' [(''b1'', ''Smith, J. (1999a).'')]) ''Smith 1999 a''
     = Inr [Text ''Smith '',
            Elem ''a'' [(''class'', ''xref''), (''href'', ''bib.xhtml#b1'')] [Text ''1999 a'']]
   \<and> Elem ''a'' [(''class'', ''xref''), (''href'', ''bib.xhtml#b1'')] [Text ''1999 a'']
        \<in> set [Text ''Smith '',
                Elem ''a'' [(''class'', ''xref''), (''href'', ''bib.xhtml#b1'')] [Text ''1999 a'']]
   \<and> (\<exists>m \<in> set (finditer ''Smith 1999 a'').
         [Text ''1999 a''] = [Text (year_in_text m)]
       \<and> map_of (build_index ''bib.xhtml'' [(''b1'', ''Smith, J. (1999a).'')])
            (lower (author_in_text m) @ remove_ws (year_in_text m)) \<noteq> None)"
proof -
  have h1: "rewrite_text (build_index ''bib.xhtml'' [(''b1'', ''Smith, J. (1999a).'')]) ''Smith 1999 a''
     = Inr [Text ''Smith '',
            Elem ''a'' [(''class'', ''xref''), (''href'', ''bib.xhtml#b1'')] [Text ''1999 a'']]"
    by code_simp
  have h2: "Elem ''a'' [(''class'', ''xref''), (''href'', ''bib.xhtml#b1'')] [Text ''1999 a'']
        \<in> set [Text ''Smith '',
                Elem ''a'' [(''class'', ''xref''), (''href'', ''bib.xhtml#b1'')] [Text ''1999 a'']]"
    by simp
  from link_text_is_year_verbatim [of "build_index ''bib.xhtml'' [(''b1'', ''Smith, J. (1999a).'')]"
      "''Smith 1999 a''" _ "''a''" "[(''class'', ''xref''), (''href'', ''bib.xhtml#b1'')]"
      "[Text ''1999 a'']"] h1 h2
  show ?thesis by blast
qed

section \<open>Text inside a hyperlink\<close>

lemma collect_text_children_of_link:
  "collect (map (rewrite_node bib_data ''a'') (map Text texts)) = Inr (map Text texts)"
  by (induction texts) auto

text \<open>
  C6, as the code has it. A text node whose parent is a hyperlink element is passed
  over, whatever its text is; a hyperlink element whose children are text nodes comes
  out of the rewriting unchanged, wherever it stands.
\<close>

theorem text_directly_inside_link_unchanged:
  "rewrite_node bib_data ''a'' (Text s) = Inr [Text s]
   \<and> rewrite_node bib_data parent_name (Elem ''a'' attrs (map Text texts))
        = Inr [Elem ''a'' attrs (map Text texts)]"
  by (simp add: collect_text_children_of_link del: map_map)

text \<open>
  A text node that lies deeper inside a hyperlink element is scanned and rewritten: its
  parent is not the hyperlink. Here the citation inside \<open>a > b\<close> gets a link of its own.
\<close>

theorem nested_text_inside_link_rewritten:
  "rewrite_node (build_index ''bib.xhtml'' [(''b1'', ''Smith, J. (1999).'')]) ''p''
     (Elem ''a'' [(''href'', ''intro.xhtml'')] [Elem ''b'' [] [Text ''Smith 1999'']])
     = Inr [Elem ''a'' [(''href'', ''intro.xhtml'')]
             [Elem ''b'' []
               [Text ''Smith '',
                Elem ''a'' [(''class'', ''xref''), (''href'', ''bib.xhtml#b1'')] [Text ''1999'']]]]
   \<and> rewrite_node (build_index ''bib.xhtml'' [(''b1'', ''Smith, J. (1999).'')]) ''p''
     (Elem ''a'' [(''href'', ''intro.xhtml'')] [Elem ''b'' [] [Text ''Smith 1999'']])
     \<noteq> Inr [Elem ''a'' [(''href'', ''intro.xhtml'')] [Elem ''b'' [] [Text ''Smith 1999'']]]"
  by code_simp

section \<open>What the Entity Guard replaces\<close>







section \<open>What the rewriter keeps of a text node\<close>











section \<open>Placeholders in a text\<close>

lemma hex_chars:
  assumes "is_hex32 h" and "i < 32"
  shows "h ! i \<noteq> CHR ''E''" and "h ! i \<noteq> CHR ''_''"
proof -
  from assms have "h ! i \<in> set ''0123456789abcdef''"
    by (auto simp: is_hex32_def list_all_length)
  then show "h ! i \<noteq> CHR ''E''" and "h ! i \<noteq> CHR ''_''" by auto
qed

lemma placeholder_length: "is_hex32 h \<Longrightarrow> length (placeholder h) = 43"
  by (simp add: placeholder_def is_hex32_def)

lemma placeholder_head:
  "placeholder h ! 0 = CHR ''_''" "placeholder h ! 1 = CHR ''_''" "placeholder h ! 2 = CHR ''E''"
  "placeholder h ! 3 \<noteq> CHR ''E''" "placeholder h ! 4 \<noteq> CHR ''E''" "placeholder h ! 5 \<noteq> CHR ''E''"
  "placeholder h ! 6 \<noteq> CHR ''E''" "placeholder h ! 7 \<noteq> CHR ''E''" "placeholder h ! 8 \<noteq> CHR ''E''"
  by (simp_all add: placeholder_def)

lemma placeholder_tail:
  assumes "is_hex32 h"
  shows "i < 32 \<Longrightarrow> placeholder h ! (9 + i) = h ! i"
    and "placeholder h ! 41 = CHR ''_''" and "placeholder h ! 42 = CHR ''_''"
proof -
  have len9: "length ''__ENTITY_'' = 9" by simp
  have t: "placeholder h ! (9 + i) = (h @ ''__'') ! i" for i
    unfolding placeholder_def len9 [symmetric] by (rule nth_append_length_plus)
  from assms have l: "length h = 32" by (simp add: is_hex32_def)
  show "i < 32 \<Longrightarrow> placeholder h ! (9 + i) = h ! i"
    by (simp add: t l nth_append)
  from t [of 32] show "placeholder h ! 41 = CHR ''_''"
    by (simp add: l nth_append)
  from t [of 33] show "placeholder h ! 42 = CHR ''_''"
    by (simp add: l nth_append)
qed

lemma placeholder_E:
  assumes "is_hex32 h" and "j < 43"
  shows "(placeholder h ! j = CHR ''E'') = (j = 2)"
proof -
  from assms(2) have "j = 0 \<or> j = 1 \<or> j = 2 \<or> j = 3 \<or> j = 4 \<or> j = 5 \<or> j = 6 \<or> j = 7 \<or> j = 8
    \<or> (9 \<le> j \<and> j < 41) \<or> j = 41 \<or> j = 42"
    by presburger
  then consider "j = 0" | "j = 1" | "j = 2" | "j = 3" | "j = 4" | "j = 5" | "j = 6" | "j = 7" | "j = 8"
    | "9 \<le> j \<and> j < 41" | "j = 41" | "j = 42"
    by blast
  then show ?thesis
  proof cases
    case 10
    then have "j = 9 + (j - 9)" "j - 9 < 32" by linarith+
    with placeholder_tail(1) [OF assms(1), of "j - 9"] hex_chars(1) [OF assms(1), of "j - 9"] 10
    show ?thesis by simp
  qed (use placeholder_head [of h] placeholder_tail(2,3) [OF assms(1)] in simp_all)
qed

lemma core_length: "is_hex32 h \<Longrightarrow> length (core h) = 39"
  by (simp add: core_def is_hex32_def)

lemma core_in_placeholder: "placeholder h = ''__'' @ core h @ ''__''"
  by (simp add: placeholder_def core_def)

lemma core_nth:
  assumes "is_hex32 h" and "j < 39"
  shows "core h ! j = placeholder h ! (2 + j)"
proof -
  have "(''__'' @ core h @ ''__'') ! (length ''__'' + j) = (core h @ ''__'') ! j"
    by (rule nth_append_length_plus)
  with assms show ?thesis
    by (simp add: core_in_placeholder core_length nth_append)
qed

lemma core_E:
  assumes "is_hex32 h" and "j < 39"
  shows "(core h ! j = CHR ''E'') = (j = 0)"
  using core_nth [OF assms] placeholder_E [OF assms(1), of "2 + j"] assms(2) by simp

lemma core_last:
  assumes "is_hex32 h"
  shows "core h ! 38 \<noteq> CHR ''_''"
  using core_nth [OF assms, of 38] placeholder_tail(1) [OF assms, of 31] hex_chars(2) [OF assms, of 31]
  by simp

lemma core_occurrence:
  assumes h: "is_hex32 h" and h': "is_hex32 h'"
      and eq: "U @ placeholder h' @ V = X @ core h @ Y"
  shows "length X + 39 \<le> length U \<or> length U + 43 \<le> length X
       \<or> (length X = length U + 2 \<and> h = h')"
proof -
  define W where "W = U @ placeholder h' @ V"
  have nthP: "W ! (length U + j) = placeholder h' ! j" if "j < 43" for j
    using that placeholder_length [OF h']
    by (simp add: W_def nth_append)
  have nthK: "W ! (length X + j) = core h ! j" if "j < 39" for j
    using that core_length [OF h]
    by (simp add: W_def eq nth_append)
  consider (cover) "length X \<le> length U + 2 \<and> length U + 2 < length X + 39"
    | (before) "length X + 39 \<le> length U + 2"
    | (after) "length U + 2 < length X"
    by linarith
  then show ?thesis
  proof cases
    case cover
    define j where "j = length U + 2 - length X"
    from cover have j: "j < 39" "length X + j = length U + 2"
      unfolding j_def by linarith+
    from nthK [OF j(1)] nthP [of 2] j(2) have "core h ! j = CHR ''E''"
      by (simp add: placeholder_head)
    with core_E [OF h j(1)] have "j = 0" by simp
    with j(2) have x: "length X = length U + 2" by simp
    have "h ! i = h' ! i" if "i < 32" for i
    proof -
      from that have "h ! i = placeholder h ! (2 + (7 + i))"
        using placeholder_tail(1) [OF h, of i] by (simp add: add.assoc [symmetric])
      also have "\<dots> = core h ! (7 + i)"
        using core_nth [OF h, of "7 + i"] that by simp
      also have "\<dots> = W ! (length X + (7 + i))"
        using nthK [of "7 + i"] that by simp
      also have "\<dots> = W ! (length U + (9 + i))"
        by (simp add: x add.commute add.left_commute)
      also have "\<dots> = placeholder h' ! (9 + i)"
        using nthP [of "9 + i"] that by simp
      also have "\<dots> = h' ! i"
        using placeholder_tail(1) [OF h', of i] that by simp
      finally show ?thesis .
    qed
    moreover from h h' have "length h = length h'" by (simp add: is_hex32_def)
    moreover from h have "length h = 32" by (simp add: is_hex32_def)
    ultimately have "h = h'" by (simp add: nth_equalityI)
    with x show ?thesis by simp
  next
    case before
    have "length X + 39 \<le> length U"
    proof (rule ccontr)
      assume "\<not> length X + 39 \<le> length U"
      with before consider "length X + 38 = length U + 0" | "length X + 38 = length U + 1"
        by linarith
      then have "W ! (length X + 38) = CHR ''_''"
      proof cases
        case 1
        have "W ! (length U + 0) = CHR ''_''"
          using nthP [of 0] by (simp add: placeholder_head)
        then show ?thesis by (simp only: 1)
      next
        case 2
        have "W ! (length U + 1) = CHR ''_''"
          using nthP [of 1] placeholder_head(2) [of h'] by simp
        then show ?thesis by (simp only: 2)
      qed
      with nthK [of 38] core_last [OF h] show False by simp
    qed
    then show ?thesis by simp
  next
    case after
    have "length U + 43 \<le> length X"
    proof (rule ccontr)
      assume "\<not> length U + 43 \<le> length X"
      define j where "j = length X - length U"
      from after \<open>\<not> length U + 43 \<le> length X\<close> have j: "j < 43" "2 < j" "length X = length U + j"
        unfolding j_def by linarith+
      from nthK [of 0] core_E [OF h, of 0] have "W ! length X = CHR ''E''" by simp
      with nthP [OF j(1)] j(3) have "placeholder h' ! j = CHR ''E''" by simp
      with placeholder_E [OF h' j(1)] j(2) show False by simp
    qed
    then show ?thesis by simp
  qed
qed

lemma core_sublist_placeholder:
  assumes h: "is_hex32 h" and h': "is_hex32 h'"
      and sub: "sublist (core h) (U @ placeholder h' @ V)"
  shows "sublist (core h) U \<or> sublist (core h) V \<or> h = h'"
proof -
  from sub obtain X Y where eq: "U @ placeholder h' @ V = X @ core h @ Y"
    by (auto simp: sublist_def)
  from core_occurrence [OF h h' eq] consider
    "length X + 39 \<le> length U" | "length U + 43 \<le> length X" | "h = h'"
    by blast
  then show ?thesis
  proof cases
    case 1
    from eq have "take (length X + 39) (U @ placeholder h' @ V) = take (length X + 39) (X @ core h @ Y)"
      by simp
    with 1 core_length [OF h] have "take (length X + 39) U = X @ core h"
      by simp
    then have "U = X @ core h @ drop (length X + 39) U"
      by (metis append_take_drop_id append.assoc)
    then show ?thesis by (metis sublist_appendI)
  next
    case 2
    from eq have "drop (length U + 43) (U @ placeholder h' @ V) = drop (length U + 43) (X @ core h @ Y)"
      by simp
    with 2 placeholder_length [OF h'] have "V = drop (length U + 43) X @ core h @ Y"
      by simp
    then show ?thesis by (metis sublist_appendI)
  next
    case 3
    then show ?thesis by simp
  qed
qed

lemma occurrence_in_prefix:
  assumes "U @ Z = P @ K @ R" and "length P + length K \<le> length U"
  shows "sublist K U"
proof -
  from assms(1) have "take (length P + length K) (U @ Z) = take (length P + length K) (P @ K @ R)"
    by simp
  with assms(2) have "take (length P + length K) U = P @ K"
    by simp
  then have "U = P @ K @ drop (length P + length K) U"
    by (metis append_take_drop_id append.assoc)
  then show ?thesis by (metis sublist_appendI)
qed

lemma placeholder_not_before:
  assumes h: "is_hex32 h" and free: "\<not> sublist (core h) A" and k: "k < length A"
  shows "\<not> prefix (placeholder h) (drop k (A @ placeholder h @ X))"
proof
  assume "prefix (placeholder h) (drop k (A @ placeholder h @ X))"
  then obtain Y where "drop k (A @ placeholder h @ X) = placeholder h @ Y"
    by (auto simp: prefix_def)
  then have w: "A @ placeholder h @ X = take k (A @ placeholder h @ X) @ placeholder h @ Y"
    by (metis append_take_drop_id)
  define T where "T = take k (A @ placeholder h @ X)"
  define P where "P = T @ ''__''"
  have len: "length P = k + 2"
    using k by (simp add: P_def T_def)
  have "T @ placeholder h @ Y = P @ core h @ (''__'' @ Y)"
    by (simp add: core_in_placeholder P_def)
  with w have eq: "A @ placeholder h @ X = P @ core h @ (''__'' @ Y)"
    unfolding T_def by (rule trans)
  from core_occurrence [OF h h eq] k have "length P + length (core h) \<le> length A"
    unfolding len core_length [OF h] by linarith
  from occurrence_in_prefix [OF eq this] free show False by simp
qed

lemma str_replace_absent:
  "old \<noteq> [] \<Longrightarrow> \<not> sublist old s \<Longrightarrow> str_replace old new s = s"
proof (induction s)
  case Nil
  then show ?case by simp
next
  case (Cons c cs)
  then show ?case by (auto simp: sublist_Cons_right)
qed

lemma str_replace_first:
  assumes "old \<noteq> []"
      and "\<And>k. k < length A \<Longrightarrow> \<not> prefix old (drop k (A @ old @ X))"
  shows "str_replace old new (A @ old @ X) = A @ new @ str_replace old new X"
  using assms(2)
proof (induction A)
  case Nil
  from assms(1) obtain o' os where "old = o' # os" by (cases old) auto
  then show ?case by simp
next
  case (Cons a A)
  from Cons.prems [of 0] have "\<not> prefix old (a # A @ old @ X)" by simp
  moreover have "\<not> prefix old (drop k (A @ old @ X))" if "k < length A" for k
    using Cons.prems [of "Suc k"] that by simp
  ultimately show ?case using Cons.IH assms(1) by simp
qed

lemma entity_at_positive: "entity_at s = Some len \<Longrightarrow> drop (len - 1) (tl s) = drop len s \<and> 0 < len"
  by (cases s) (auto simp: entity_at_def Let_def split: if_splits)

lemma protect_from_parts:
  "protect_from uuid n m s
     = (protected_text uuid n s,
        fold (\<lambda>(k, v). AList.update k v) (entity_pairs uuid n s) m,
        n + length (entity_pairs uuid n s))"
  by (induction uuid n m s rule: protect_from.induct) (auto split: option.splits)

lemma entity_pairs_keys:
  "map fst (entity_pairs uuid n s)
     = map (\<lambda>i. placeholder (uuid i)) [n..<n + length (entity_pairs uuid n s)]"
proof (induction uuid n s rule: entity_pairs.induct)
  case (1 uuid n)
  then show ?case by simp
next
  case (2 uuid n c cs)
  show ?case
  proof (cases "entity_at (c # cs)")
    case None
    with 2 show ?thesis by simp
  next
    case (Some len)
    define ps where "ps = entity_pairs uuid (Suc n) (drop (len - 1) cs)"
    have u: "[n..<Suc n + length ps] = n # [Suc n..<Suc n + length ps]"
      by (rule upt_conv_Cons) simp
    have e: "n + length (entity_pairs uuid n (c # cs)) = Suc n + length ps"
      by (simp add: Some ps_def)
    have "map fst (entity_pairs uuid n (c # cs)) = placeholder (uuid n) # map fst ps"
      by (simp add: Some ps_def)
    also have "\<dots> = placeholder (uuid n)
                      # map (\<lambda>i. placeholder (uuid i)) [Suc n..<Suc n + length ps]"
      using 2(2) [OF Some] by (simp only: ps_def)
    also have "\<dots> = map (\<lambda>i. placeholder (uuid i)) (n # [Suc n..<Suc n + length ps])"
      by simp
    also have "\<dots> = map (\<lambda>i. placeholder (uuid i)) [n..<Suc n + length ps]"
      by (simp only: u)
    finally show ?thesis by (simp only: e)
  qed
qed

lemma update_fresh: "k \<notin> fst ` set m \<Longrightarrow> AList.update k v m = m @ [(k, v)]"
  by (induction m) auto

lemma fold_update_fresh:
  "distinct (map fst ps) \<Longrightarrow> fst ` set ps \<inter> fst ` set m = {}
     \<Longrightarrow> fold (\<lambda>(k, v). AList.update k v) ps m = m @ ps"
proof (induction ps arbitrary: m)
  case Nil
  then show ?case by simp
next
  case (Cons p ps)
  obtain k v where p: "p = (k, v)" by (cases p)
  from Cons.prems have fresh: "k \<notin> fst ` set m" by (auto simp: p)
  from Cons.prems have "fst ` set ps \<inter> fst ` set (m @ [(k, v)]) = {}"
    by (auto simp: p)
  with Cons.IH [of "m @ [(k, v)]"] Cons.prems(1) show ?case
    by (simp add: p update_fresh [OF fresh])
qed

text \<open>
  Protecting a text brings in no occurrence of the core of an identifier that is not
  drawn in it.
\<close>

lemma core_not_in_protected_text:
  assumes "is_hex32 h"
      and "\<And>i. n \<le> i \<Longrightarrow> i < n + length (entity_pairs uuid n s) \<Longrightarrow> is_hex32 (uuid i) \<and> uuid i \<noteq> h"
      and "\<not> sublist (core h) (B @ s)"
  shows "\<not> sublist (core h) (B @ protected_text uuid n s)"
  using assms(2,3)
proof (induction uuid n s arbitrary: B rule: protected_text.induct)
  case (1 uuid n)
  then show ?case by simp
next
  case (2 uuid n c cs)
  show ?case
  proof (cases "entity_at (c # cs)")
    case None
    from "2.prems"(2) have "\<not> sublist (core h) ((B @ [c]) @ cs)" by simp
    moreover have "is_hex32 (uuid i) \<and> uuid i \<noteq> h"
      if "n \<le> i" "i < n + length (entity_pairs uuid n cs)" for i
      using "2.prems"(1) [of i] that None by simp
    ultimately have "\<not> sublist (core h) ((B @ [c]) @ protected_text uuid n cs)"
      using "2.IH"(1) [OF None, of "B @ [c]"] by blast
    with None show ?thesis by simp
  next
    case (Some len)
    define rest where "rest = drop (len - 1) cs"
    from entity_at_positive [OF Some] have split: "c # cs = take len (c # cs) @ rest"
      by (simp add: rest_def)
    have here: "is_hex32 (uuid n)" "uuid n \<noteq> h"
      using "2.prems"(1) [of n] Some by simp_all
    have later: "is_hex32 (uuid i) \<and> uuid i \<noteq> h"
      if "Suc n \<le> i" "i < Suc n + length (entity_pairs uuid (Suc n) rest)" for i
      using "2.prems"(1) [of i] that Some by (simp add: rest_def)
    have "\<not> sublist (core h) ((B @ placeholder (uuid n)) @ rest)"
    proof
      assume "sublist (core h) ((B @ placeholder (uuid n)) @ rest)"
      then have "sublist (core h) (B @ placeholder (uuid n) @ rest)" by simp
      from core_sublist_placeholder [OF assms(1) here(1) this] here(2)
      consider "sublist (core h) B" | "sublist (core h) rest" by blast
      then have "sublist (core h) (B @ c # cs)"
      proof cases
        case 1
        then show ?thesis by (meson sublist_append)
      next
        case 2
        then have "sublist (core h) (take len (c # cs) @ rest)" by (meson sublist_append)
        then have "sublist (core h) (c # cs)" by (simp only: split [symmetric])
        then show ?thesis by (meson sublist_append)
      qed
      with "2.prems"(2) show False by simp
    qed
    with "2.IH"(2) [OF Some, of "B @ placeholder (uuid n)"] later
    have "\<not> sublist (core h) ((B @ placeholder (uuid n)) @ protected_text uuid (Suc n) rest)"
      unfolding rest_def by blast
    with Some show ?thesis by (simp add: rest_def)
  qed
qed

lemma placeholder_inject: "placeholder h = placeholder h' \<Longrightarrow> h = h'"
  by (simp add: placeholder_def)

lemma placeholder_not_Nil: "placeholder h \<noteq> []"
  by (simp add: placeholder_def)

text \<open>
  Restoring the recorded pairs, in the order of their recording, in front of any text
  that is already restored.
\<close>

lemma restore_entity_pairs:
  assumes "\<And>i. n \<le> i \<Longrightarrow> i < n + length (entity_pairs uuid n s) \<Longrightarrow> is_hex32 (uuid i)"
      and "inj_on uuid {n..<n + length (entity_pairs uuid n s)}"
      and "\<And>i. n \<le> i \<Longrightarrow> i < n + length (entity_pairs uuid n s)
             \<Longrightarrow> \<not> sublist (core (uuid i)) (A @ s)"
  shows "fold (\<lambda>(ph, entity) t. str_replace ph entity t) (entity_pairs uuid n s)
           (A @ protected_text uuid n s) = A @ s"
  using assms
proof (induction uuid n s arbitrary: A rule: entity_pairs.induct)
  case (1 uuid n)
  then show ?case by simp
next
  case (2 uuid n c cs)
  show ?case
  proof (cases "entity_at (c # cs)")
    case None
    have "fold (\<lambda>(ph, entity) t. str_replace ph entity t) (entity_pairs uuid n cs)
            ((A @ [c]) @ protected_text uuid n cs) = (A @ [c]) @ cs"
    proof (rule "2.IH"(1) [OF None])
      show "is_hex32 (uuid i)" if "n \<le> i" "i < n + length (entity_pairs uuid n cs)" for i
        using "2.prems"(1) [of i] that None by simp
      show "inj_on uuid {n..<n + length (entity_pairs uuid n cs)}"
        using "2.prems"(2) None by simp
      show "\<not> sublist (core (uuid i)) ((A @ [c]) @ cs)"
        if "n \<le> i" "i < n + length (entity_pairs uuid n cs)" for i
        using "2.prems"(3) [of i] that None by simp
    qed
    with None show ?thesis by simp
  next
    case (Some len)
    define rest where "rest = drop (len - 1) cs"
    define e where "e = take len (c # cs)"
    define p where "p = placeholder (uuid n)"
    define ps where "ps = entity_pairs uuid (Suc n) rest"
    define pt where "pt = protected_text uuid (Suc n) rest"
    from entity_at_positive [OF Some] have whole: "c # cs = e @ rest"
      by (simp add: rest_def e_def)
    have pairs: "entity_pairs uuid n (c # cs) = (p, e) # ps"
      and ptext: "protected_text uuid n (c # cs) = p @ pt"
      by (simp_all add: Some p_def e_def ps_def pt_def rest_def)
    have len_pairs: "length (entity_pairs uuid n (c # cs)) = Suc (length ps)"
      by (simp only: pairs) simp
    have hn: "is_hex32 (uuid n)"
      using "2.prems"(1) [of n] unfolding len_pairs by simp
    have "\<not> sublist (core (uuid n)) (A @ c # cs)"
      using "2.prems"(3) [of n] unfolding len_pairs by simp
    then have free: "\<not> sublist (core (uuid n)) (A @ e @ rest)"
      by (simp add: whole)
    then have freeA: "\<not> sublist (core (uuid n)) A" and freeR: "\<not> sublist (core (uuid n)) rest"
      by (auto simp: sublist_append)
    have inj: "inj_on uuid {n..<Suc n + length ps}"
      using "2.prems"(2) unfolding len_pairs by simp
    have later: "is_hex32 (uuid i) \<and> uuid i \<noteq> uuid n"
      if "Suc n \<le> i" "i < Suc n + length (entity_pairs uuid (Suc n) rest)" for i
    proof -
      from that have "i \<in> {n..<Suc n + length ps}" "n \<in> {n..<Suc n + length ps}" "i \<noteq> n"
        by (simp_all add: ps_def)
      with inj have "uuid i \<noteq> uuid n" by (auto dest: inj_onD)
      moreover have "is_hex32 (uuid i)"
        using "2.prems"(1) [of i] that unfolding len_pairs by (simp add: ps_def)
      ultimately show ?thesis by simp
    qed
    from freeR have "\<not> sublist (core (uuid n)) ([] @ rest)" by simp
    from core_not_in_protected_text [OF hn later this]
    have "\<not> sublist (core (uuid n)) pt" by (simp add: pt_def)
    moreover have "sublist (core (uuid n)) p"
      unfolding p_def core_in_placeholder by (rule sublist_appendI)
    ultimately have absent: "\<not> sublist p pt"
      using sublist_order.order.trans by blast
    have "str_replace p e (A @ p @ pt) = A @ e @ str_replace p e pt"
      unfolding p_def
      by (rule str_replace_first [OF placeholder_not_Nil]) (rule placeholder_not_before [OF hn freeA])
    also have "str_replace p e pt = pt"
      by (rule str_replace_absent [OF _ absent]) (simp add: p_def placeholder_not_Nil)
    finally have step: "str_replace p e (A @ p @ pt) = A @ e @ pt" .
    have "fold (\<lambda>(ph, entity) t. str_replace ph entity t) (entity_pairs uuid (Suc n) (drop (len - 1) cs))
            ((A @ e) @ protected_text uuid (Suc n) (drop (len - 1) cs)) = (A @ e) @ drop (len - 1) cs"
    proof (rule "2.IH"(2) [OF Some])
      show "is_hex32 (uuid i)"
        if "Suc n \<le> i" "i < Suc n + length (entity_pairs uuid (Suc n) (drop (len - 1) cs))" for i
        using later [of i] that by (simp add: rest_def)
      show "inj_on uuid {Suc n..<Suc n + length (entity_pairs uuid (Suc n) (drop (len - 1) cs))}"
        using inj by (auto simp: ps_def rest_def inj_on_def)
      show "\<not> sublist (core (uuid i)) ((A @ e) @ drop (len - 1) cs)"
        if "Suc n \<le> i" "i < Suc n + length (entity_pairs uuid (Suc n) (drop (len - 1) cs))" for i
      proof -
        from that have "\<not> sublist (core (uuid i)) (A @ c # cs)"
          using "2.prems"(3) [of i] unfolding len_pairs by (simp add: ps_def rest_def)
        then have "\<not> sublist (core (uuid i)) (A @ e @ rest)"
          by (simp add: whole)
        then show ?thesis by (simp add: rest_def)
      qed
    qed
    then have "fold (\<lambda>(ph, entity) t. str_replace ph entity t) ps (A @ e @ pt) = A @ e @ rest"
      by (simp add: ps_def pt_def rest_def)
    with step have "fold (\<lambda>(ph, entity) t. str_replace ph entity t) ((p, e) # ps) (A @ p @ pt)
                      = A @ e @ rest"
      by simp
    then show ?thesis
      unfolding pairs ptext by (simp add: whole)
  qed
qed

text \<open>
  C3, as the code has it. Let the identifiers drawn while a text is protected have the
  format of \<^verbatim>\<open>uuid.uuid4().hex\<close>, let them differ from each other, and let the text
  not contain \<open>ENTITY_\<close> followed by one of them. Then restoring the protected text with
  the recorded map gives back the text.
\<close>

theorem entity_round_trip:
  assumes "protect_from uuid 0 [] chapter_content = (protected_content, entity_map, n)"
      and "\<forall>i<n. is_hex32 (uuid i)"
      and "inj_on uuid {..<n}"
      and "\<forall>i<n. \<not> sublist (''ENTITY_'' @ uuid i) chapter_content"
  shows "protect uuid chapter_content = (protected_content, entity_map)
       \<and> restore entity_map protected_content = chapter_content"
proof -
  define ps where "ps = entity_pairs uuid 0 chapter_content"
  from assms(1) have pc: "protected_content = protected_text uuid 0 chapter_content"
    and em: "entity_map = fold (\<lambda>(k, v). AList.update k v) ps []"
    and n: "n = length ps"
    by (simp_all add: protect_from_parts ps_def)
  have keys: "map fst ps = map (\<lambda>i. placeholder (uuid i)) [0..<n]"
    using entity_pairs_keys [of uuid 0 chapter_content] by (simp add: ps_def n)
  have "inj_on (\<lambda>i. placeholder (uuid i)) (set [0..<n])"
    using assms(3) by (auto simp: inj_on_def dest: placeholder_inject)
  then have "distinct (map fst ps)"
    by (simp add: keys distinct_map)
  then have "entity_map = ps"
    using fold_update_fresh [of ps "[]"] by (simp add: em)
  moreover have "fold (\<lambda>(ph, entity) t. str_replace ph entity t) (entity_pairs uuid 0 chapter_content)
                   ([] @ protected_text uuid 0 chapter_content) = [] @ chapter_content"
  proof (rule restore_entity_pairs)
    show "is_hex32 (uuid i)" if "i < 0 + length (entity_pairs uuid 0 chapter_content)" for i
      using assms(2) that by (simp add: ps_def [symmetric] n)
    show "inj_on uuid {0..<0 + length (entity_pairs uuid 0 chapter_content)}"
      using assms(3) by (simp add: ps_def [symmetric] n [symmetric] atLeast0LessThan)
    show "\<not> sublist (core (uuid i)) ([] @ chapter_content)"
      if "i < 0 + length (entity_pairs uuid 0 chapter_content)" for i
      using assms(4) that by (simp add: ps_def [symmetric] n core_def)
  qed
  ultimately have "restore entity_map protected_content = chapter_content"
    by (simp add: restore_def pc ps_def)
  with assms(1) show ?thesis by (simp add: protect_def)
qed

theorem entity_round_trip_witness:
  "protect_from sample_uuid 0 [] ''Q&amp;A &#160; R&D''
     = (''Q__ENTITY_00000000000040008000000000000000__A __ENTITY_00000000000040008000000000000001__ R&D'',
        [(''__ENTITY_00000000000040008000000000000000__'', ''&amp;''),
         (''__ENTITY_00000000000040008000000000000001__'', ''&#160;'')], 2)
   \<and> is_hex32 (sample_uuid 0) \<and> is_hex32 (sample_uuid 1)
   \<and> sample_uuid 0 \<noteq> sample_uuid 1
   \<and> \<not> sublist (''ENTITY_'' @ sample_uuid 0) ''Q&amp;A &#160; R&D''
   \<and> \<not> sublist (''ENTITY_'' @ sample_uuid 1) ''Q&amp;A &#160; R&D''
   \<and> restore [(''__ENTITY_00000000000040008000000000000000__'', ''&amp;''),
               (''__ENTITY_00000000000040008000000000000001__'', ''&#160;'')]
        ''Q__ENTITY_00000000000040008000000000000000__A __ENTITY_00000000000040008000000000000001__ R&D''
       = ''Q&amp;A &#160; R&D''"
proof -
  have h1: "protect_from sample_uuid 0 [] ''Q&amp;A &#160; R&D''
     = (''Q__ENTITY_00000000000040008000000000000000__A __ENTITY_00000000000040008000000000000001__ R&D'',
        [(''__ENTITY_00000000000040008000000000000000__'', ''&amp;''),
         (''__ENTITY_00000000000040008000000000000001__'', ''&#160;'')], 2)"
    by code_simp
  have x0: "is_hex32 (sample_uuid 0)" and x1: "is_hex32 (sample_uuid 1)"
    by code_simp+
  have d: "sample_uuid 0 \<noteq> sample_uuid 1"
    by code_simp
  have s0: "\<not> sublist (''ENTITY_'' @ sample_uuid 0) ''Q&amp;A &#160; R&D''"
    and s1: "\<not> sublist (''ENTITY_'' @ sample_uuid 1) ''Q&amp;A &#160; R&D''"
    by code_simp+
  have two: "i < 2 \<longleftrightarrow> i = 0 \<or> i = 1" for i :: nat
    by auto
  have h2: "\<forall>i<2. is_hex32 (sample_uuid i)"
    using x0 x1 by (auto simp only: two)
  have h3: "inj_on sample_uuid {..<2}"
    using d by (auto simp only: inj_on_def two lessThan_iff)
  have h4: "\<forall>i<2. \<not> sublist (''ENTITY_'' @ sample_uuid i) ''Q&amp;A &#160; R&D''"
    using s0 s1 by (auto simp only: two)
  from entity_round_trip [OF h1 h2 h3 h4] h1 x0 x1 d s0 s1 show ?thesis
    by blast
qed

text \<open>
  The assumption that no placeholder occurs in the text is not enough. The text
  \<open>__ENTITY_00000000000040008000000000000000&amp;\<close> does not contain the placeholder made
  from the identifier \<open>00000000000040008000000000000000\<close>, but the protected text
  contains it twice, overlapping, and the replacement takes the first occurrence:
  restoring gives \<open>&amp;ENTITY_00000000000040008000000000000000__\<close>.
\<close>

theorem round_trip_fails_on_placeholder_stem:
  "protect sample_uuid ''__ENTITY_00000000000040008000000000000000&amp;''
     = (''__ENTITY_00000000000040008000000000000000__ENTITY_00000000000040008000000000000000__'',
        [(''__ENTITY_00000000000040008000000000000000__'', ''&amp;'')])
   \<and> \<not> sublist ''__ENTITY_00000000000040008000000000000000__''
         ''__ENTITY_00000000000040008000000000000000&amp;''
   \<and> restore [(''__ENTITY_00000000000040008000000000000000__'', ''&amp;'')]
        ''__ENTITY_00000000000040008000000000000000__ENTITY_00000000000040008000000000000000__''
       = ''&amp;ENTITY_00000000000040008000000000000000__''
   \<and> ''&amp;ENTITY_00000000000040008000000000000000__''
       \<noteq> ''__ENTITY_00000000000040008000000000000000&amp;''"
  by code_simp

end
